theory Spec2Isabelle
  imports Complex_Main "HOL-Library.Log_Nat"
begin

section \<open>JavaScript values used by the two components\<close>

text \<open>
  A JavaScript string is a sequence of UTF-16 code units. The literals of the source
  contain Japanese text, so a string is modelled as the list of its code unit values;
  an ASCII literal is written with \<open>ascii\<close>.
\<close>

type_synonym jsstring = "nat list"

definition ascii :: "string \<Rightarrow> jsstring" where
  "ascii s = map of_char s"

text \<open>
  \<open>String.prototype.trim\<close> removes the code units of the ECMAScript productions
  WhiteSpace and LineTerminator from both ends.
\<close>

definition WhiteSpace :: "nat \<Rightarrow> bool" where
  "WhiteSpace c \<longleftrightarrow>
     c = 0x09 \<or> c = 0x0A \<or> c = 0x0B \<or> c = 0x0C \<or> c = 0x0D \<or> c = 0x20 \<or> c = 0xA0
     \<or> c = 0x1680 \<or> (0x2000 \<le> c \<and> c \<le> 0x200A) \<or> c = 0x2028 \<or> c = 0x2029
     \<or> c = 0x202F \<or> c = 0x205F \<or> c = 0x3000 \<or> c = 0xFEFF"

definition trim :: "jsstring \<Rightarrow> jsstring" where
  "trim s = rev (dropWhile WhiteSpace (rev (dropWhile WhiteSpace s)))"

text \<open>Truthiness of a string: every string but the empty one.\<close>

definition truthy :: "jsstring \<Rightarrow> bool" where
  "truthy s \<longleftrightarrow> s \<noteq> []"

section \<open>BlogHeader\<close>

text \<open>
  Modelled from the spec: the types \<open>Category\<close> and \<open>Blog\<close> of \<open>@/lib/types\<close>
  are not part of the sources. A category has an identifier, a display name, an
  explanation text and an optional cover image with a URL; of a blog post the
  components only read the identifier.
\<close>

record Image =
  url :: jsstring

record Category =
  id_Category :: jsstring
  name :: jsstring
  explanation :: jsstring
  image_Category :: "Image option"

record Blog =
  id_Blog :: jsstring

text \<open>The three \<open>useState\<close> cells of the header.\<close>

record BlogHeader =
  categories :: "Category list"
  menuOpen :: bool
  searchQuery :: jsstring

definition BlogHeader_initial :: BlogHeader where
  "BlogHeader_initial = \<lparr>categories = [], menuOpen = False, searchQuery = []\<rparr>"

text \<open>What a handler of the header does to the outside: the form event and the router.\<close>

datatype header_effect = PreventDefault | RouterPush jsstring

text \<open>\<open>setMenuOpen((prevState) => !prevState)\<close>\<close>

definition toggleMenu :: "BlogHeader \<Rightarrow> BlogHeader" where
  "toggleMenu h = h\<lparr>menuOpen := \<not> menuOpen h\<rparr>"

text \<open>
  \<open>handleSearch\<close>: the handler calls \<open>e.preventDefault()\<close>, then pushes the search
  location when the trimmed query is truthy. It sets no state.
\<close>

definition handleSearch :: "BlogHeader \<Rightarrow> header_effect list \<times> BlogHeader" where
  "handleSearch h =
     ([PreventDefault] @
      (if truthy (trim (searchQuery h))
       then [RouterPush (ascii ''/blog/search?query='' @ searchQuery h)]
       else []),
      h)"

text \<open>
  The events of the rendered header. The hamburger button is always rendered; the
  overlay, its close button and the second search form only while the menu is open.
  The close button sits inside the inner panel, whose own click handler stops the
  propagation, so the overlay's handler does not run a second toggle.
\<close>

datatype header_event =
    HamburgerClick
  | OverlayClick
  | CloseClick
  | InputChange jsstring
  | FormSubmit

fun header_step :: "BlogHeader \<Rightarrow> header_event \<Rightarrow> header_effect list \<times> BlogHeader" where
  "header_step h HamburgerClick = ([], toggleMenu h)"
| "header_step h OverlayClick = ([], if menuOpen h then toggleMenu h else h)"
| "header_step h CloseClick = ([], if menuOpen h then toggleMenu h else h)"
| "header_step h (InputChange v) = ([], h\<lparr>searchQuery := v\<rparr>)"
| "header_step h FormSubmit = handleSearch h"

definition navigations :: "header_effect list \<Rightarrow> jsstring list" where
  "navigations es = concat (map (\<lambda>e. case e of RouterPush l \<Rightarrow> [l] | PreventDefault \<Rightarrow> []) es)"

section \<open>CategoryList\<close>

subsection \<open>State, requests and effects\<close>

text \<open>
  The answer of \<open>getBlogsByCategory\<close>. Numbers are JavaScript numbers, that is IEEE 754
  doubles. The total count is a whole number; the field holds its value. A whole
  number is a double when it has at most 53 significant bits and is below \<open>2^1024\<close>,
  and only such a count can arrive.
\<close>

record BlogsResponse =
  contents :: "Blog list"
  totalCount :: int

text \<open>How an awaited promise settles.\<close>

datatype 'a outcome = Resolved 'a | Rejected

text \<open>
  Everything the component does, in the order in which it does it: calls of the
  container's callback, requests handed to the content API, and calls of its own
  state setters.
\<close>

datatype effect =
    SetIsLoading bool
  | GetBlogsByCategory jsstring int int
  | GetCategory jsstring
  | SetBlogs "Blog list"
  | SetTotalPages int
  | SetCategory "Category option"
  | SetCurrentPage int

text \<open>
  The component instance: what the router and the container hand in
  (\<open>router.query.categoryId\<close>, and the identity of the \<open>setIsLoading\<close> function, which
  is one of the effect's dependencies), the four \<open>useState\<close> cells, the dependency
  values of the last run of the effect (none before the first), the number of
  requests in flight, and whether the instance is still mounted: a render that throws
  unmounts it.
\<close>

record CategoryList =
  categoryId :: "jsstring option"
  setIsLoading :: nat
  blogs :: "Blog list"
  category :: "Category option"
  currentPage :: int
  totalPages :: int
  deps :: "(jsstring option \<times> nat \<times> int) option"
  pendingBlogs :: nat
  pendingCategory :: nat
  mounted :: bool

definition CategoryList_initial :: "jsstring option \<Rightarrow> nat \<Rightarrow> CategoryList" where
  "CategoryList_initial cid f =
     \<lparr>categoryId = cid, setIsLoading = f, blogs = [], category = None,
      currentPage = 1, totalPages = 0, deps = None,
      pendingBlogs = 0, pendingCategory = 0, mounted = True\<rparr>"

definition blogsPerPage :: int where
  "blogsPerPage = 10"

text \<open>
  The quotient \<open>a / b\<close> of two doubles that are whole numbers, for \<open>b > 0\<close>: the exact
  quotient rounded to the nearest number with 53 significant bits, a tie going to the
  even one. \<open>round_half_even a b\<close> is the whole number nearest to \<open>a / b\<close>; \<open>binade a b\<close>
  is the exponent of the power of two at or below \<open>a / b\<close>, for \<open>a > 0\<close>, found from the
  bit lengths of both. The quotient then is \<open>m * 2^e\<close> with \<open>e = binade \<bar>a\<bar> b - 52\<close> and
  \<open>m\<close> the whole number nearest to \<open>a / (b * 2^e)\<close>. A quotient of a whole number by 10
  is zero or at least a tenth in size, and below \<open>2^1021\<close>: it neither underflows nor
  overflows.
\<close>

definition round_half_even :: "int \<Rightarrow> int \<Rightarrow> int" where
  "round_half_even a b =
     (let k = a div b; r = a mod b in
      if 2 * r < b then k
      else if b < 2 * r then k + 1
      else if even k then k else k + 1)"

definition binade :: "int \<Rightarrow> int \<Rightarrow> int" where
  "binade a b =
     (let d = bitlen a - bitlen b in
      if b * 2 ^ nat d \<le> a * 2 ^ nat (- d) then d else d - 1)"

definition Number_divide :: "int \<Rightarrow> int \<Rightarrow> real" where
  "Number_divide a b =
     (let e = binade \<bar>a\<bar> b - 52;
          m = round_half_even (a * 2 ^ nat (- e)) (b * 2 ^ nat e)
      in real_of_int (m * 2 ^ nat e) / 2 ^ nat (- e))"

definition Math_ceil :: "real \<Rightarrow> int" where
  "Math_ceil x = \<lceil>x\<rceil>"

subsection \<open>The two asynchronous functions of the effect\<close>

text \<open>
  An \<open>async\<close> function with one \<open>await\<close> runs in two segments. \<open>fetchBlogs\<close> is the
  segment up to the \<open>await\<close>, ending with the request; \<open>fetchBlogs_resume\<close> is the segment
  after it, which runs when the promise resolves. When the promise rejects the
  \<open>await\<close> throws and nothing of the rest runs.
\<close>

definition fetchBlogs :: "jsstring option \<Rightarrow> int \<Rightarrow> effect list" where
  "fetchBlogs cid page =
     (case cid of
        None \<Rightarrow> []
      | Some c \<Rightarrow>
          if \<not> truthy c then []
          else [SetIsLoading True, GetBlogsByCategory c page blogsPerPage])"

definition fetchBlogs_resume :: "BlogsResponse outcome \<Rightarrow> effect list" where
  "fetchBlogs_resume r =
     (case r of
        Rejected \<Rightarrow> []
      | Resolved data \<Rightarrow>
          [SetBlogs (contents data),
           SetTotalPages (Math_ceil (Number_divide (totalCount data) blogsPerPage)),
           SetIsLoading False])"

definition fetchCategory :: "jsstring option \<Rightarrow> effect list" where
  "fetchCategory cid =
     (case cid of
        None \<Rightarrow> []
      | Some c \<Rightarrow> if \<not> truthy c then [] else [GetCategory c])"

definition fetchCategory_resume :: "Category option outcome \<Rightarrow> effect list" where
  "fetchCategory_resume r =
     (case r of Rejected \<Rightarrow> [] | Resolved data \<Rightarrow> [SetCategory data])"

definition handlePageChange :: "int \<Rightarrow> effect list" where
  "handlePageChange page = [SetCurrentPage page]"

text \<open>What one effect does to the component instance.\<close>

fun perform :: "CategoryList \<Rightarrow> effect \<Rightarrow> CategoryList" where
  "perform v (SetIsLoading b) = v"
| "perform v (GetBlogsByCategory c p n) = v\<lparr>pendingBlogs := Suc (pendingBlogs v)\<rparr>"
| "perform v (GetCategory c) = v\<lparr>pendingCategory := Suc (pendingCategory v)\<rparr>"
| "perform v (SetBlogs bs) = v\<lparr>blogs := bs\<rparr>"
| "perform v (SetTotalPages n) = v\<lparr>totalPages := n\<rparr>"
| "perform v (SetCategory c) = v\<lparr>category := c\<rparr>"
| "perform v (SetCurrentPage p) = v\<lparr>currentPage := p\<rparr>"

text \<open>
  \<open>useEffect(..., [categoryId, setIsLoading, currentPage])\<close>: after a render the body
  runs when it has not run before or when one of the three dependencies differs from
  its value at the last run. The body starts \<open>fetchBlogs(currentPage)\<close> and then
  \<open>fetchCategory()\<close>, each up to its \<open>await\<close>.
\<close>

definition useEffect :: "CategoryList \<Rightarrow> effect list \<times> CategoryList" where
  "useEffect v =
     (let d = (categoryId v, setIsLoading v, currentPage v) in
      if deps v = Some d then ([], v)
      else
        (let es = fetchBlogs (categoryId v) (currentPage v) @ fetchCategory (categoryId v)
         in (es, foldl perform (v\<lparr>deps := Some d\<rparr>) es)))"

subsection \<open>Rendering\<close>

record Button =
  key :: int
  onClick :: int
  className :: jsstring
  label :: int

record CategoryInfo =
  category_description :: "jsstring option"
  category_image :: "(jsstring \<times> jsstring) option"

datatype listing = NoResults jsstring | BlogList "(jsstring \<times> Blog) list"

record Head =
  title :: jsstring
  meta_description :: jsstring
  meta_keywords :: jsstring

record Page =
  page_head :: Head
  h1 :: jsstring
  category_info :: "CategoryInfo option"
  listing :: listing
  pagination :: "Button list"

text \<open>
  \<open>Array.from({ length: n }, (_, index) => f index)\<close> makes an array of \<open>n\<close> elements,
  of none for \<open>n\<close> below 1, and throws a \<open>RangeError\<close> for a length of \<open>2^32\<close> or more.
\<close>

datatype error = RangeError

definition Array_from :: "int \<Rightarrow> (int \<Rightarrow> 'a) \<Rightarrow> error + 'a list" where
  "Array_from n f = (if 2 ^ 32 \<le> n then Inl RangeError else Inr (map f [0..n - 1]))"

text \<open>
  The parts of the returned element tree, reduced to what they show, in the order in
  which the function builds them. The title element has three children (the
  expression, the string of one space, and the text that follows), which make up the
  title in this order.
\<close>

definition Head_element :: "CategoryList \<Rightarrow> Head" where
  "Head_element v =
     \<lparr>title =
        concat
          [case category v of
             Some c \<Rightarrow> name c @ [0x20, 0x306E, 0x30AB, 0x30C6, 0x30B4, 0x30EA]
           | None \<Rightarrow> [0x30AB, 0x30C6, 0x30B4, 0x30EA],
           ascii '' '',
           [0x7C, 0x20, 0x69, 0x55, 0x20, 0x5B66, 0x53CB, 0x4F1A]],
      meta_description =
        (case category v of Some c \<Rightarrow> explanation c | None \<Rightarrow> []),
      meta_keywords =
        [0x5B66, 0x53CB, 0x4F1A, 0x2C, 0x20] @
        (case category v of Some c \<Rightarrow> name c | None \<Rightarrow> [])\<rparr>"

definition h1_element :: "CategoryList \<Rightarrow> jsstring" where
  "h1_element v = (case category v of Some c \<Rightarrow> name c | None \<Rightarrow> [])"

definition category_info_element :: "CategoryList \<Rightarrow> CategoryInfo option" where
  "category_info_element v =
     (case category v of
        None \<Rightarrow> None
      | Some c \<Rightarrow>
          if truthy (explanation c) \<or> image_Category c \<noteq> None
          then Some
            \<lparr>category_description =
               (if truthy (explanation c) then Some (explanation c) else None),
             category_image =
               (case image_Category c of
                  None \<Rightarrow> None
                | Some i \<Rightarrow> Some (url i, name c))\<rparr>
          else None)"

definition listing_element :: "CategoryList \<Rightarrow> listing" where
  "listing_element v =
     (if length (blogs v) = 0
      then NoResults
        (case category v of
           Some c \<Rightarrow> name c
         | None \<Rightarrow> [0x3053, 0x306E, 0x30AB, 0x30C6, 0x30B4, 0x30EA])
      else BlogList (map (\<lambda>blog. (id_Blog blog, blog)) (blogs v)))"

definition pagination_element :: "CategoryList \<Rightarrow> error + Button list" where
  "pagination_element v =
     (if totalPages v > 1
      then Array_from (totalPages v)
        (\<lambda>index.
           \<lparr>key = index + 1,
            onClick = index + 1,
            className =
              ascii ''page-button '' @
              (if currentPage v = index + 1 then ascii ''active'' else []),
            label = index + 1\<rparr>)
      else Inr [])"

text \<open>
  The component function: it returns the element tree, or throws what building the
  pagination buttons throws.
\<close>

definition render :: "CategoryList \<Rightarrow> error + Page" where
  "render v =
     (case pagination_element v of
        Inl e \<Rightarrow> Inl e
      | Inr buttons \<Rightarrow>
          Inr \<lparr>page_head = Head_element v,
               h1 = h1_element v,
               category_info = category_info_element v,
               listing = listing_element v,
               pagination = buttons\<rparr>)"

text \<open>The pagination buttons on the screen: those of the last render, if it returned.\<close>

definition buttons :: "CategoryList \<Rightarrow> Button list" where
  "buttons v =
     (if mounted v
      then (case render v of Inl e \<Rightarrow> [] | Inr page \<Rightarrow> pagination page)
      else [])"

subsection \<open>The component as a machine\<close>

text \<open>
  What can happen to a mounted instance: the router delivers another \<open>categoryId\<close>, the
  container renders it with another \<open>setIsLoading\<close> function, a rendered pagination
  button is clicked, or a request in flight settles. After the state changes of an
  event the component renders again and the effect runs if a dependency changed. A
  render that throws unmounts the instance: its effect does not run, and from then on
  nothing is rendered and state setters change nothing, while the rest of a function
  awaiting a request still runs when the request settles.
\<close>

datatype event =
    RouterQuery "jsstring option"
  | Props nat
  | ClickPage int
  | BlogsSettled "BlogsResponse outcome"
  | CategorySettled "Category option outcome"

definition commit :: "effect list \<Rightarrow> CategoryList \<Rightarrow> effect list \<times> CategoryList" where
  "commit es v =
     (if \<not> mounted v then (es, v)
      else
        (let w = foldl perform v es in
         case render w of
           Inl e \<Rightarrow> (es, w\<lparr>mounted := False\<rparr>)
         | Inr page \<Rightarrow> (let (es', v') = useEffect w in (es @ es', v'))))"

fun step :: "CategoryList \<Rightarrow> event \<Rightarrow> effect list \<times> CategoryList" where
  "step v (RouterQuery c) = commit [] (v\<lparr>categoryId := c\<rparr>)"
| "step v (Props f) = commit [] (v\<lparr>setIsLoading := f\<rparr>)"
| "step v (ClickPage p) =
     (if p \<in> set (map onClick (buttons v))
      then commit (handlePageChange p) v
      else ([], v))"
| "step v (BlogsSettled r) =
     (if pendingBlogs v = 0 then ([], v)
      else commit (fetchBlogs_resume r) (v\<lparr>pendingBlogs := pendingBlogs v - 1\<rparr>))"
| "step v (CategorySettled r) =
     (if pendingCategory v = 0 then ([], v)
      else commit (fetchCategory_resume r) (v\<lparr>pendingCategory := pendingCategory v - 1\<rparr>))"

text \<open>Mounting: the first render, followed by the first run of the effect.\<close>

definition mount :: "jsstring option \<Rightarrow> nat \<Rightarrow> effect list \<times> CategoryList" where
  "mount cid f = useEffect (CategoryList_initial cid f)"

fun run :: "effect list \<times> CategoryList \<Rightarrow> event list \<Rightarrow> effect list \<times> CategoryList" where
  "run (t, v) [] = (t, v)"
| "run (t, v) (ev # evs) = (let (es, v') = step v ev in run (t @ es, v') evs)"

inductive reachable :: "CategoryList \<Rightarrow> bool" where
  reachable_mount: "reachable (snd (mount cid f))"
| reachable_step: "reachable v \<Longrightarrow> reachable (snd (step v ev))"

definition posts_requests :: "effect list \<Rightarrow> (jsstring \<times> int \<times> int) list" where
  "posts_requests es =
     concat (map (\<lambda>e. case e of GetBlogsByCategory c p n \<Rightarrow> [(c, p, n)] | _ \<Rightarrow> []) es)"

fun is_request :: "effect \<Rightarrow> bool" where
  "is_request (GetBlogsByCategory c p n) = True"
| "is_request (GetCategory c) = True"
| "is_request e = False"

subsection \<open>Orderings on traces and runs\<close>

text \<open>
  A trace is ordered when every posts request has the loading-start signal directly
  before it, and every loading-end signal has the two stores of a completed posts
  request directly before it.
\<close>

definition loading_ordered :: "effect list \<Rightarrow> bool" where
  "loading_ordered t \<longleftrightarrow>
     (\<forall>i<length t.
        (\<forall>c p n. t ! i = GetBlogsByCategory c p n \<longrightarrow> 0 < i \<and> t ! (i - 1) = SetIsLoading True)
        \<and> (t ! i = SetIsLoading False \<longrightarrow>
             2 \<le> i \<and> (\<exists>bs n. t ! (i - 2) = SetBlogs bs \<and> t ! (i - 1) = SetTotalPages n)))"

fun posts_resolved :: "event \<Rightarrow> bool" where
  "posts_resolved (BlogsSettled (Resolved d)) = True"
| "posts_resolved ev = False"

text \<open>
  A posts completion keeps the page when the total page count it stores is not
  positive or not below the page that is current; a run keeps the page when each of
  its events does, in the state in which it happens.
\<close>

fun keeps_page :: "CategoryList \<Rightarrow> event \<Rightarrow> bool" where
  "keeps_page v (BlogsSettled (Resolved d)) =
     (Math_ceil (Number_divide (totalCount d) blogsPerPage) \<le> 0
      \<or> currentPage v \<le> Math_ceil (Number_divide (totalCount d) blogsPerPage))"
| "keeps_page v ev = True"

fun pages_kept :: "CategoryList \<Rightarrow> event list \<Rightarrow> bool" where
  "pages_kept v [] = True"
| "pages_kept v (ev # evs) = (keeps_page v ev \<and> pages_kept (snd (step v ev)) evs)"

subsection \<open>Concrete inputs\<close>


definition d25 :: BlogsResponse where
  "d25 = \<lparr>contents = [], totalCount = 25\<rparr>"

definition d7 :: BlogsResponse where
  "d7 = \<lparr>contents = [], totalCount = 7\<rparr>"

text \<open>
  Two counts that are doubles: \<open>100000000000000048\<close>, which is \<open>2^4\<close> times a number below
  \<open>2^53\<close>, and \<open>42949672951\<close>, which is below \<open>2^53\<close> and makes \<open>2^32\<close> pages.
\<close>

definition d_unsafe :: BlogsResponse where
  "d_unsafe = \<lparr>contents = [], totalCount = 100000000000000048\<rparr>"

definition d_many :: BlogsResponse where
  "d_many = \<lparr>contents = [], totalCount = 42949672951\<rparr>"


text \<open>
  Page 3 of category \<open>c1\<close> (25 posts) is selected, then the router delivers category
  \<open>c2\<close> (7 posts) to the same instance, and its posts arrive.
\<close>

definition stale_page :: CategoryList where
  "stale_page = snd (run (mount (Some (ascii ''c1'')) 0)
     [BlogsSettled (Resolved d25), ClickPage 3, BlogsSettled (Resolved d25),
      RouterQuery (Some (ascii ''c2'')), BlogsSettled (Resolved d7)])"

section \<open>Properties of BlogHeader\<close>

lemma dropWhile_all_Nil: "(\<forall>x\<in>set (dropWhile P xs). P x) \<longleftrightarrow> dropWhile P xs = []"
proof
  assume all: "\<forall>x\<in>set (dropWhile P xs). P x"
  show "dropWhile P xs = []"
  proof (rule ccontr)
    assume ne: "dropWhile P xs \<noteq> []"
    from ne have "hd (dropWhile P xs) \<in> set (dropWhile P xs)" by (rule hd_in_set)
    with all have "P (hd (dropWhile P xs))" by blast
    with hd_dropWhile [OF ne] show False by blast
  qed
next
  assume e: "dropWhile P xs = []"
  show "\<forall>x\<in>set (dropWhile P xs). P x" unfolding e by simp
qed

text \<open>The trimmed string is empty exactly for a string of white space only.\<close>

lemma trim_Nil_iff: "trim s = [] \<longleftrightarrow> (\<forall>c\<in>set s. WhiteSpace c)"
proof -
  have "trim s = [] \<longleftrightarrow> (\<forall>x\<in>set (dropWhile WhiteSpace s). WhiteSpace x)"
    by (simp add: trim_def)
  also have "\<dots> \<longleftrightarrow> dropWhile WhiteSpace s = []"
    by (rule dropWhile_all_Nil)
  also have "\<dots> \<longleftrightarrow> (\<forall>c\<in>set s. WhiteSpace c)"
    by simp
  finally show ?thesis .
qed

text \<open>
  C6. Submitting the search form while the search text is empty or consists of white
  space only: the trimmed text is empty, the handler prevents the default form
  navigation and does nothing else; no location is pushed and the state of the header
  is the one before.
\<close>

theorem handleSearch_blank_ignored:
  assumes "\<forall>c\<in>set (searchQuery h). WhiteSpace c"
  shows "trim (searchQuery h) = []
    \<and> header_step h FormSubmit = ([PreventDefault], h)
    \<and> navigations (fst (header_step h FormSubmit)) = []"
  using assms by (simp add: trim_Nil_iff handleSearch_def truthy_def navigations_def)

theorem handleSearch_blank_ignored_witness:
  "header_step (BlogHeader_initial\<lparr>searchQuery := ascii ''  ''\<rparr>) FormSubmit
     = ([PreventDefault], BlogHeader_initial\<lparr>searchQuery := ascii ''  ''\<rparr>)
   \<and> navigations (fst (header_step (BlogHeader_initial\<lparr>searchQuery := ascii ''  ''\<rparr>) FormSubmit)) = []"
  using handleSearch_blank_ignored [of "BlogHeader_initial\<lparr>searchQuery := ascii ''  ''\<rparr>"]
  by (simp add: ascii_def WhiteSpace_def navigations_def)

text \<open>
  C7. Submitting the search form while the trimmed search text is not empty: after
  preventing the default, the handler pushes exactly one location, the path
  \<open>/blog/search?query=\<close> followed by the stored search text as it is, neither trimmed
  nor encoded; the state of the header is the one before.
\<close>

theorem handleSearch_navigates_once:
  assumes "trim (searchQuery h) \<noteq> []"
  shows "header_step h FormSubmit =
      ([PreventDefault, RouterPush (ascii ''/blog/search?query='' @ searchQuery h)], h)
    \<and> navigations (fst (header_step h FormSubmit)) =
      [ascii ''/blog/search?query='' @ searchQuery h]"
  using assms by (simp add: handleSearch_def truthy_def navigations_def)

theorem handleSearch_navigates_once_witness:
  "navigations (fst (header_step (BlogHeader_initial\<lparr>searchQuery := ascii ''music''\<rparr>) FormSubmit))
     = [ascii ''/blog/search?query=music'']
   \<and> navigations (fst (header_step (BlogHeader_initial\<lparr>searchQuery := ascii '' a&b ''\<rparr>) FormSubmit))
     = [ascii ''/blog/search?query= a&b '']"
  using handleSearch_navigates_once [of "BlogHeader_initial\<lparr>searchQuery := ascii ''music''\<rparr>"]
    handleSearch_navigates_once [of "BlogHeader_initial\<lparr>searchQuery := ascii '' a&b ''\<rparr>"]
  by (simp add: ascii_def trim_def WhiteSpace_def navigations_def)

text \<open>
  C10. A click on the hamburger button has no outside effect and negates the
  menu-open flag: two clicks give back the state before them, and a click while the
  menu is open closes it.
\<close>

theorem hamburger_toggles:
  "fst (header_step h HamburgerClick) = []
   \<and> menuOpen (snd (header_step h HamburgerClick)) = (\<not> menuOpen h)
   \<and> snd (header_step (snd (header_step h HamburgerClick)) HamburgerClick) = h
   \<and> menuOpen (snd (header_step (h\<lparr>menuOpen := True\<rparr>) HamburgerClick)) = False"
  by (simp add: toggleMenu_def)

theorem hamburger_toggles_witness:
  "menuOpen (snd (header_step (BlogHeader_initial\<lparr>menuOpen := True\<rparr>) HamburgerClick)) = False
   \<and> snd (header_step (snd (header_step BlogHeader_initial HamburgerClick)) HamburgerClick)
       = BlogHeader_initial"
  using hamburger_toggles [of "BlogHeader_initial\<lparr>menuOpen := True\<rparr>"]
    hamburger_toggles [of BlogHeader_initial]
  by simp

section \<open>Properties of CategoryList\<close>

subsection \<open>The quotient of two doubles\<close>

text \<open>
  The whole number nearest to a tenth of \<open>a\<close> is off by at most a half.
\<close>

lemma round_half_even_ten: "\<bar>10 * round_half_even a 10 - a\<bar> \<le> 5"
  unfolding round_half_even_def Let_def by presburger

lemma bitlen_ten: "bitlen 10 = 4"
proof (rule antisym)
  show "bitlen 10 \<le> 4" by (simp add: bitlen_le_iff_power)
  show "4 \<le> bitlen 10" by (simp add: bitlen_ge_iff_power)
qed

lemma binade_le: "binade a b \<le> bitlen a - bitlen b"
  by (simp add: binade_def Let_def)

lemma ceiling_scaled:
  fixes m s k :: int
  assumes "0 < s" and "(k - 1) * s < m" and "m \<le> k * s"
  shows "\<lceil>real_of_int m / real_of_int s\<rceil> = k"
proof (rule ceiling_unique)
  from assms(2) have "real_of_int ((k - 1) * s) < real_of_int m" by (simp only: of_int_less_iff)
  then have "(real_of_int k - 1) * real_of_int s < real_of_int m" by simp
  with assms(1) show "real_of_int k - 1 < real_of_int m / real_of_int s"
    by (simp add: pos_less_divide_eq)
  from assms(3) have "real_of_int m \<le> real_of_int (k * s)" by (simp only: of_int_le_iff)
  then have "real_of_int m \<le> real_of_int k * real_of_int s" by simp
  with assms(1) show "real_of_int m / real_of_int s \<le> real_of_int k"
    by (simp add: pos_divide_le_eq)
qed

text \<open>
  Below \<open>2^53\<close> the rounded quotient by 10 has the ceiling of the exact quotient: the
  quotient is rounded to a multiple of an eighth or finer, a multiple of ten is
  divided exactly, and every other count is at least a tenth away from a whole number.
\<close>

lemma Math_ceil_tenth:
  assumes "0 \<le> n" and "n < 2 ^ 53"
  shows "Math_ceil (Number_divide n blogsPerPage) = (n + 9) div 10"
proof -
  define e where "e = binade \<bar>n\<bar> 10 - 52"
  define s :: int where "s = 2 ^ nat (- e)"
  define m where "m = round_half_even (n * s) 10"
  define k where "k = (n + 9) div 10"
  have "bitlen \<bar>n\<bar> \<le> 53"
    using assms by (simp add: bitlen_le_iff_power)
  with binade_le [of "\<bar>n\<bar>" 10] have e: "e \<le> - 3"
    by (simp add: e_def bitlen_ten)
  then have e0: "nat e = 0" by simp
  from e have "3 \<le> nat (- e)" by simp
  then have "(2::int) ^ 3 \<le> 2 ^ nat (- e)" by (rule power_increasing) simp
  then have s8: "8 \<le> s" by (simp add: s_def)
  have q: "Number_divide n blogsPerPage = real_of_int m / real_of_int s"
    by (simp add: Number_divide_def blogsPerPage_def Let_def e_def [symmetric] e0
        s_def m_def)
  have r: "\<bar>10 * m - n * s\<bar> \<le> 5"
    unfolding m_def by (rule round_half_even_ten)
  have k1: "10 * (k - 1) < n" and k2: "n \<le> 10 * k"
    unfolding k_def by presburger+
  from k2 s8 have "n * s \<le> (10 * k) * s" by (intro mult_right_mono) simp_all
  then have u: "n * s \<le> 10 * (k * s)" by (simp add: mult.assoc)
  from k1 have "10 * (k - 1) + 1 \<le> n" by simp
  with s8 have "(10 * (k - 1) + 1) * s \<le> n * s" by (intro mult_right_mono) simp_all
  then have l: "10 * (k * s) - 9 * s \<le> n * s" by (simp add: algebra_simps)
  from r u have hi: "m \<le> k * s" by linarith
  from r l s8 have "(k * s) - s < m" by linarith
  then have lo: "(k - 1) * s < m" by (simp add: algebra_simps)
  from s8 have "0 < s" by simp
  from ceiling_scaled [OF this lo hi] show ?thesis
    by (simp add: Math_ceil_def q k_def)
qed

lemma ceil_tenth_real: "\<lceil>real_of_int n / 10\<rceil> = (n + 9) div 10"
proof -
  have "\<lceil>real_of_int n / 10\<rceil> = - (- n div 10)"
    using ceiling_divide_eq_div [of n 10] by simp
  also have "\<dots> = (n + 9) div 10" by presburger
  finally show ?thesis .
qed

lemma Math_ceil_ten:
  "0 \<le> n \<Longrightarrow> n < 2 ^ 53 \<Longrightarrow> Math_ceil (Number_divide n 10) = (n + 9) div 10"
  using Math_ceil_tenth [of n] by (simp add: blogsPerPage_def)

lemma Math_ceil_unsafe: "Math_ceil (Number_divide 100000000000000048 10) = 10000000000000004"
  by code_simp

subsection \<open>The render, the effect and the commit\<close>

lemma render_eq:
  "render v =
     (if 2 ^ 32 \<le> totalPages v then Inl RangeError
      else Inr \<lparr>page_head = Head_element v, h1 = h1_element v,
             category_info = category_info_element v, listing = listing_element v,
             pagination =
               (if 1 < totalPages v
                then map (\<lambda>index.
                       \<lparr>key = index + 1, onClick = index + 1,
                        className = ascii ''page-button '' @
                          (if currentPage v = index + 1 then ascii ''active'' else []),
                        label = index + 1\<rparr>) [0..totalPages v - 1]
                else [])\<rparr>)"
  by (simp add: render_def pagination_element_def Array_from_def)

lemma commit_eq:
  "commit es v =
     (if \<not> mounted v then (es, v)
      else if 2 ^ 32 \<le> totalPages (foldl perform v es)
        then (es, (foldl perform v es)\<lparr>mounted := False\<rparr>)
      else (es @ fst (useEffect (foldl perform v es)), snd (useEffect (foldl perform v es))))"
  by (simp add: commit_def render_eq split_def Let_def)

lemma useEffect_cases:
  "useEffect v = ([], v) \<and> deps v = Some (categoryId v, setIsLoading v, currentPage v)
   \<or> (\<exists>c. categoryId v = Some c \<and> truthy c
        \<and> deps v \<noteq> Some (categoryId v, setIsLoading v, currentPage v)
        \<and> useEffect v =
          ([SetIsLoading True, GetBlogsByCategory c (currentPage v) 10, GetCategory c],
           v\<lparr>deps := Some (categoryId v, setIsLoading v, currentPage v),
             pendingBlogs := Suc (pendingBlogs v),
             pendingCategory := Suc (pendingCategory v)\<rparr>))
   \<or> ((categoryId v = None \<or> categoryId v = Some [])
        \<and> deps v \<noteq> Some (categoryId v, setIsLoading v, currentPage v)
        \<and> useEffect v = ([], v\<lparr>deps := Some (categoryId v, setIsLoading v, currentPage v)\<rparr>))"
  by (auto simp: useEffect_def fetchBlogs_def fetchCategory_def truthy_def blogsPerPage_def Let_def
      split: option.split)

lemma useEffect_fields:
  "blogs (snd (useEffect v)) = blogs v \<and> category (snd (useEffect v)) = category v
   \<and> currentPage (snd (useEffect v)) = currentPage v
   \<and> totalPages (snd (useEffect v)) = totalPages v
   \<and> categoryId (snd (useEffect v)) = categoryId v
   \<and> setIsLoading (snd (useEffect v)) = setIsLoading v
   \<and> mounted (snd (useEffect v)) = mounted v
   \<and> deps (snd (useEffect v)) = Some (categoryId v, setIsLoading v, currentPage v)"
  using useEffect_cases [of v] by auto

lemma useEffect_emits:
  "fst (useEffect v) = []
   \<or> (\<exists>c. categoryId v = Some c \<and> truthy c \<and>
        fst (useEffect v) = [SetIsLoading True, GetBlogsByCategory c (currentPage v) 10, GetCategory c])"
  using useEffect_cases [of v] by auto

lemma useEffect_pending:
  "pendingBlogs (snd (useEffect v)) = pendingBlogs v + length (posts_requests (fst (useEffect v)))"
  using useEffect_cases [of v] by (auto simp: posts_requests_def)

lemmas machine_defs =
  mount_def useEffect_def CategoryList_initial_def fetchBlogs_def fetchCategory_def
  fetchBlogs_resume_def fetchCategory_resume_def handlePageChange_def commit_eq
  truthy_def ascii_def blogsPerPage_def Let_def

lemma perform_mounted: "mounted (perform v e) = mounted v"
  by (cases e) simp_all

lemma foldl_perform_mounted: "mounted (foldl perform v es) = mounted v"
  by (induction es arbitrary: v) (simp_all add: perform_mounted)

lemma fst_commit:
  "fst (commit es v) =
     es @ (if mounted v \<and> totalPages (foldl perform v es) < 2 ^ 32
           then fst (useEffect (foldl perform v es)) else [])"
  by (simp add: commit_eq)

lemma commit_fields:
  "currentPage (snd (commit es v)) =
     (if mounted v then currentPage (foldl perform v es) else currentPage v)
   \<and> totalPages (snd (commit es v)) =
     (if mounted v then totalPages (foldl perform v es) else totalPages v)
   \<and> categoryId (snd (commit es v)) =
     (if mounted v then categoryId (foldl perform v es) else categoryId v)
   \<and> mounted (snd (commit es v)) = (mounted v \<and> totalPages (foldl perform v es) < 2 ^ 32)"
  by (simp add: commit_eq useEffect_fields foldl_perform_mounted)

subsection \<open>Rendering\<close>





subsection \<open>Total page count and pagination buttons\<close>

lemma map_Suc_upto: "map (\<lambda>i. i + 1) [a..b] = [a + 1..b + 1]"
proof (induction "nat (b - a + 1)" arbitrary: a)
  case 0
  then show ?case by simp
next
  case (Suc n)
  then have le: "a \<le> b" by linarith
  from Suc have "n = nat (b - (a + 1) + 1)" by linarith
  then have "map (\<lambda>i. i + 1) [a + 1..b] = [a + 1 + 1..b + 1]" by (rule Suc.hyps(1))
  with le show ?case by (simp add: upto_rec1 [of a b] upto_rec1 [of "a + 1" "b + 1"])
qed

lemma pagination_labels:
  assumes "render v = Inr page"
  shows "map label (pagination page) = (if 1 < totalPages v then [1..totalPages v] else [])"
    and "map onClick (pagination page) = (if 1 < totalPages v then [1..totalPages v] else [])"
    and "map key (pagination page) = (if 1 < totalPages v then [1..totalPages v] else [])"
  using assms map_Suc_upto [of 0 "totalPages v - 1"]
  by (auto simp: render_eq comp_def split: if_splits)

lemma buttons_onClick:
  "set (map onClick (buttons v)) =
     (if mounted v \<and> 1 < totalPages v \<and> totalPages v < 2 ^ 32 then {1..totalPages v} else {})"
proof (cases "mounted v \<and> totalPages v < 2 ^ 32")
  case True
  then obtain page where p: "render v = Inr page" by (auto simp: render_eq)
  with True have "buttons v = pagination page" by (simp add: buttons_def)
  with pagination_labels(2) [OF p]
  have m: "map onClick (buttons v) = (if 1 < totalPages v then [1..totalPages v] else [])"
    by (simp only:)
  show ?thesis unfolding m using True by auto
next
  case False
  then have "buttons v = []" by (cases "mounted v") (simp_all add: buttons_def render_eq)
  with False show ?thesis by (simp only: list.map list.set) simp
qed

lemma step_ClickPage:
  "step v (ClickPage p) =
     (if mounted v \<and> 1 < totalPages v \<and> totalPages v < 2 ^ 32 \<and> 1 \<le> p \<and> p \<le> totalPages v
      then commit (handlePageChange p) v else ([], v))"
  by (simp only: step.simps buttons_onClick) simp

lemmas run_defs = machine_defs step_ClickPage

text \<open>
  C1, as amended. When a posts request of a mounted instance completes with a total
  count that is not negative and below \<open>2^53\<close>, the stored total page count is the
  ceiling of a tenth of the count: the least number of pages of ten that hold all
  posts. If it is below \<open>2^32\<close>, the render returns with one button per page, labelled
  1 to the total page count, when there is more than one page, and with no button
  otherwise. If it is \<open>2^32\<close> or more, the render throws a \<open>RangeError\<close>, and the
  instance is unmounted and shows no button.
\<close>

theorem totalPages_and_buttons:
  assumes "0 \<le> totalCount d" and "totalCount d < 2 ^ 53"
    and "0 < pendingBlogs v" and "mounted v"
    and "v' = snd (step v (BlogsSettled (Resolved d)))"
  shows "totalPages v' = \<lceil>real_of_int (totalCount d) / 10\<rceil>
    \<and> totalPages v' = (totalCount d + 9) div 10
    \<and> 0 \<le> totalPages v'
    \<and> 10 * (totalPages v' - 1) < totalCount d \<and> totalCount d \<le> 10 * totalPages v'
    \<and> (totalPages v' < 2 ^ 32 \<longrightarrow>
         mounted v'
         \<and> (\<exists>page. render v' = Inr page \<and> buttons v' = pagination page
              \<and> map label (pagination page) =
                  (if 1 < totalPages v' then [1..totalPages v'] else [])
              \<and> length (pagination page) =
                  (if 1 < totalPages v' then nat (totalPages v') else 0)))
    \<and> (2 ^ 32 \<le> totalPages v' \<longrightarrow>
         render v' = Inl RangeError \<and> \<not> mounted v' \<and> buttons v' = [])"
proof -
  have tp: "totalPages v' = (totalCount d + 9) div 10"
    using assms
    by (simp add: commit_fields fetchBlogs_resume_def Math_ceil_tenth)
  have m: "mounted v' = (totalPages v' < 2 ^ 32)"
    using assms
    by (simp add: commit_fields fetchBlogs_resume_def)
  have c: "\<lceil>real_of_int (totalCount d) / 10\<rceil> = (totalCount d + 9) div 10"
    by (rule ceil_tenth_real)
  have b: "0 \<le> (totalCount d + 9) div 10"
    using assms(1) by simp
  have r: "10 * ((totalCount d + 9) div 10 - 1) < totalCount d
      \<and> totalCount d \<le> 10 * ((totalCount d + 9) div 10)"
    by presburger
  have ok: "mounted v'
         \<and> (\<exists>page. render v' = Inr page \<and> buttons v' = pagination page
              \<and> map label (pagination page) =
                  (if 1 < totalPages v' then [1..totalPages v'] else [])
              \<and> length (pagination page) =
                  (if 1 < totalPages v' then nat (totalPages v') else 0))"
    if lt: "totalPages v' < 2 ^ 32"
  proof -
    from lt m have mv: "mounted v'" by simp
    from lt obtain page where p: "render v' = Inr page" by (auto simp: render_eq)
    have l: "map label (pagination page) =
        (if 1 < totalPages v' then [1..totalPages v'] else [])"
      by (rule pagination_labels(1) [OF p])
    have "length (map label (pagination page)) =
        (if 1 < totalPages v' then nat (totalPages v') else 0)"
      unfolding l by simp
    then have n: "length (pagination page) =
        (if 1 < totalPages v' then nat (totalPages v') else 0)"
      by simp
    from mv p have "buttons v' = pagination page" by (simp add: buttons_def)
    with mv p l n show ?thesis by blast
  qed
  have bad: "render v' = Inl RangeError \<and> \<not> mounted v' \<and> buttons v' = []"
    if ge: "2 ^ 32 \<le> totalPages v'"
  proof -
    from ge m have "\<not> mounted v'" by simp
    moreover from ge have "render v' = Inl RangeError" by (simp add: render_eq)
    ultimately show ?thesis by (simp add: buttons_def)
  qed
  from tp c b r ok bad show ?thesis by presburger
qed

theorem totalPages_and_buttons_witness:
  "totalPages (snd (step (snd (mount (Some (ascii ''c1'')) 0)) (BlogsSettled (Resolved d25)))) = 3
   \<and> map label (buttons
        (snd (step (snd (mount (Some (ascii ''c1'')) 0)) (BlogsSettled (Resolved d25))))) = [1, 2, 3]
   \<and> length (buttons
        (snd (step (snd (mount (Some (ascii ''c1'')) 0)) (BlogsSettled (Resolved d25))))) = 3"
proof -
  have p: "0 < pendingBlogs (snd (mount (Some (ascii ''c1'')) 0))"
    "mounted (snd (mount (Some (ascii ''c1'')) 0))"
    by (simp_all add: machine_defs)
  have n: "0 \<le> totalCount d25" "totalCount d25 < 2 ^ 53" by (simp_all add: d25_def)
  from totalPages_and_buttons [OF n p refl]
  show ?thesis by (auto simp: d25_def upto_rec1)
qed

text \<open>
  C1 as stated fails for large counts. For the count \<open>100000000000000048\<close> the
  quotient is rounded to \<open>10000000000000004\<close>, which is stored, while the ceiling of a
  tenth of the count is \<open>10000000000000005\<close>. For the count \<open>42949672951\<close> the stored
  total page count is \<open>2^32\<close>, and the render throws instead of making that many
  buttons.
\<close>

theorem totalPages_and_buttons_counterexample:
  "fst (step (snd (mount (Some (ascii ''c1'')) 0)) (BlogsSettled (Resolved d_unsafe))) =
     [SetBlogs [], SetTotalPages 10000000000000004, SetIsLoading False]
   \<and> \<lceil>real_of_int (totalCount d_unsafe) / 10\<rceil> = 10000000000000005
   \<and> totalPages (snd (step (snd (mount (Some (ascii ''c1'')) 0))
        (BlogsSettled (Resolved d_many)))) = 4294967296
   \<and> render (snd (step (snd (mount (Some (ascii ''c1'')) 0))
        (BlogsSettled (Resolved d_many)))) = Inl RangeError
   \<and> buttons (snd (step (snd (mount (Some (ascii ''c1'')) 0))
        (BlogsSettled (Resolved d_many)))) = []"
  by (simp add: machine_defs d_unsafe_def d_many_def Math_ceil_unsafe Math_ceil_ten
      render_eq buttons_def)

subsection \<open>No category identifier, no request\<close>

lemma commit_no_request:
  assumes "filter is_request es = []" and "categoryId (snd (commit es w)) = None"
  shows "filter is_request (fst (commit es w)) = []"
proof (cases "mounted w \<and> totalPages (foldl perform w es) < 2 ^ 32")
  case True
  with assms(2) have "categoryId (foldl perform w es) = None"
    by (simp add: commit_eq useEffect_fields)
  with useEffect_emits [of "foldl perform w es"] have "fst (useEffect (foldl perform w es)) = []"
    by auto
  with assms(1) True show ?thesis by (simp add: fst_commit)
next
  case False
  with assms(1) show ?thesis by (auto simp: fst_commit)
qed

text \<open>
  C3. Without a category identifier nothing is fetched: mounting issues no request
  and leaves none in flight, a run of the effect issues none, and an event after which
  the identifier is absent issues neither a posts request nor a category request.
\<close>

theorem no_fetch_without_categoryId:
  "fst (mount None f) = []
   \<and> pendingBlogs (snd (mount None f)) = 0 \<and> pendingCategory (snd (mount None f)) = 0
   \<and> (categoryId v = None \<longrightarrow> fst (useEffect v) = [])
   \<and> (categoryId (snd (step v ev)) = None \<longrightarrow> filter is_request (fst (step v ev)) = [])"
proof -
  have m: "fst (mount None f) = []
     \<and> pendingBlogs (snd (mount None f)) = 0 \<and> pendingCategory (snd (mount None f)) = 0"
    by (simp add: machine_defs)
  have u: "categoryId v = None \<longrightarrow> fst (useEffect v) = []"
    using useEffect_emits [of v] by auto
  have s: "categoryId (snd (step v ev)) = None \<longrightarrow> filter is_request (fst (step v ev)) = []"
  proof
    assume a: "categoryId (snd (step v ev)) = None"
    show "filter is_request (fst (step v ev)) = []"
    proof (cases ev)
      case (RouterQuery c)
      with a show ?thesis by (simp add: commit_no_request)
    next
      case (Props g)
      with a show ?thesis by (simp add: commit_no_request)
    next
      case (ClickPage p)
      with a show ?thesis
        by (simp add: commit_no_request handlePageChange_def split: if_splits)
    next
      case (BlogsSettled r)
      with a show ?thesis
        by (cases r) (simp_all add: commit_no_request fetchBlogs_resume_def split: if_splits)
    next
      case (CategorySettled r)
      with a show ?thesis
        by (cases r) (simp_all add: commit_no_request fetchCategory_resume_def split: if_splits)
    qed
  qed
  from m u s show ?thesis by blast
qed

theorem no_fetch_without_categoryId_witness:
  "fst (mount None 0) = []
   \<and> fst (useEffect (CategoryList_initial None 0)) = []
   \<and> filter is_request (fst (step (snd (mount (Some (ascii ''c1'')) 0)) (RouterQuery None))) = []"
  using no_fetch_without_categoryId [of 0 "CategoryList_initial None 0" "RouterQuery None"]
    no_fetch_without_categoryId [of 0 "snd (mount (Some (ascii ''c1'')) 0)" "RouterQuery None"]
  by (simp add: machine_defs)

subsection \<open>Order of the loading signals\<close>

lemma loading_ordered_append:
  assumes t: "loading_ordered t" and es: "loading_ordered es"
  shows "loading_ordered (t @ es)"
  unfolding loading_ordered_def
proof (intro allI impI)
  fix i
  assume i: "i < length (t @ es)"
  show "(\<forall>c p n. (t @ es) ! i = GetBlogsByCategory c p n \<longrightarrow>
           0 < i \<and> (t @ es) ! (i - 1) = SetIsLoading True)
      \<and> ((t @ es) ! i = SetIsLoading False \<longrightarrow>
           2 \<le> i \<and> (\<exists>bs n. (t @ es) ! (i - 2) = SetBlogs bs \<and> (t @ es) ! (i - 1) = SetTotalPages n))"
  proof (cases "i < length t")
    case True
    then have "i - 1 < length t" "i - 2 < length t" by arith+
    with True have e: "(t @ es) ! i = t ! i" "(t @ es) ! (i - 1) = t ! (i - 1)"
      "(t @ es) ! (i - 2) = t ! (i - 2)"
      by (simp_all only: nth_append if_True)
    from t True show ?thesis unfolding e loading_ordered_def by blast
  next
    case False
    define j where "j = i - length t"
    from False i have j: "j < length es" and ij: "i = length t + j" by (simp_all add: j_def)
    have e0: "(t @ es) ! i = es ! j" by (simp add: ij)
    have e1: "(t @ es) ! (i - 1) = es ! (j - 1)" if "0 < j"
    proof -
      from that have "i - 1 = length t + (j - 1)" unfolding ij by arith
      then show ?thesis by (simp only: nth_append_length_plus)
    qed
    have e2: "(t @ es) ! (i - 2) = es ! (j - 2)" if "2 \<le> j"
    proof -
      from that have "i - 2 = length t + (j - 2)" unfolding ij by arith
      then show ?thesis by (simp only: nth_append_length_plus)
    qed
    from es j have
      a: "\<forall>c p n. es ! j = GetBlogsByCategory c p n \<longrightarrow> 0 < j \<and> es ! (j - 1) = SetIsLoading True"
      and b: "es ! j = SetIsLoading False \<longrightarrow>
           2 \<le> j \<and> (\<exists>bs n. es ! (j - 2) = SetBlogs bs \<and> es ! (j - 1) = SetTotalPages n)"
      unfolding loading_ordered_def by blast+
    have "\<forall>c p n. (t @ es) ! i = GetBlogsByCategory c p n \<longrightarrow>
           0 < i \<and> (t @ es) ! (i - 1) = SetIsLoading True"
      using a e1 unfolding e0 by (auto simp: ij)
    moreover have "(t @ es) ! i = SetIsLoading False \<longrightarrow>
           2 \<le> i \<and> (\<exists>bs n. (t @ es) ! (i - 2) = SetBlogs bs \<and> (t @ es) ! (i - 1) = SetTotalPages n)"
      using b e1 e2 unfolding e0 by (auto simp: ij)
    ultimately show ?thesis by blast
  qed
qed

lemma loading_ordered_Nil: "loading_ordered []"
  by (simp add: loading_ordered_def)

lemma loading_ordered_setter:
  "loading_ordered [SetCurrentPage p]" "loading_ordered [SetCategory c]"
  by (simp_all add: loading_ordered_def)

lemma loading_ordered_resume: "loading_ordered (fetchBlogs_resume r)"
  by (cases r) (simp_all add: loading_ordered_def fetchBlogs_resume_def All_less_Suc)

lemma loading_ordered_request:
  "loading_ordered [SetIsLoading True, GetBlogsByCategory c p n, GetCategory c']"
  by (simp add: loading_ordered_def All_less_Suc)

lemma loading_ordered_useEffect: "loading_ordered (fst (useEffect v))"
  using useEffect_emits [of v]
  by (elim disjE exE conjE) (simp_all only: loading_ordered_Nil loading_ordered_request)

lemma loading_ordered_commit:
  "loading_ordered es \<Longrightarrow> loading_ordered (fst (commit es v))"
  by (simp add: fst_commit loading_ordered_append loading_ordered_useEffect loading_ordered_Nil)

lemma loading_ordered_step: "loading_ordered (fst (step v ev))"
proof (cases ev)
  case (CategorySettled r)
  then show ?thesis
    by (cases r)
      (simp_all add: loading_ordered_commit loading_ordered_Nil loading_ordered_setter
        fetchCategory_resume_def)
qed (simp_all add: loading_ordered_commit loading_ordered_Nil loading_ordered_setter
      loading_ordered_resume handlePageChange_def)

lemma count_useEffect: "count_list (fst (useEffect v)) (SetIsLoading False) = 0"
  using useEffect_emits [of v] by auto

lemma count_step:
  "count_list (fst (step v ev)) (SetIsLoading False) =
     (if posts_resolved ev \<and> 0 < pendingBlogs v then 1 else 0)"
proof (cases ev)
  case (BlogsSettled r)
  then show ?thesis
    by (cases r) (simp_all add: fst_commit count_useEffect fetchBlogs_resume_def)
next
  case (CategorySettled r)
  then show ?thesis
    by (cases r) (simp_all add: fst_commit count_useEffect fetchCategory_resume_def)
qed (simp_all add: fst_commit count_useEffect handlePageChange_def)

lemma posts_requests_append: "posts_requests (a @ b) = posts_requests a @ posts_requests b"
  by (simp add: posts_requests_def)

lemma pending_commit:
  assumes "posts_requests es = []" and "pendingBlogs (foldl perform v es) = pendingBlogs v"
  shows "pendingBlogs (snd (commit es v)) = pendingBlogs v + length (posts_requests (fst (commit es v)))"
  using assms by (simp add: commit_eq useEffect_pending posts_requests_append)

lemma pending_step:
  "count_list (fst (step v ev)) (SetIsLoading False) + pendingBlogs (snd (step v ev))
     \<le> pendingBlogs v + length (posts_requests (fst (step v ev)))"
proof (cases ev)
  case (BlogsSettled r)
  show ?thesis
  proof (cases "pendingBlogs v = 0")
    case True
    with BlogsSettled show ?thesis by (simp add: posts_requests_def)
  next
    case False
    let ?V = "v\<lparr>pendingBlogs := pendingBlogs v - 1\<rparr>"
    have "posts_requests (fetchBlogs_resume r) = []"
      "pendingBlogs (foldl perform ?V (fetchBlogs_resume r)) = pendingBlogs ?V"
      by (cases r; simp add: fetchBlogs_resume_def posts_requests_def)+
    from pending_commit [OF this] count_step [of v ev] False BlogsSettled
    show ?thesis by (simp split: if_splits)
  qed
next
  case (CategorySettled r)
  show ?thesis
  proof (cases "pendingCategory v = 0")
    case True
    with CategorySettled show ?thesis by (simp add: posts_requests_def)
  next
    case False
    let ?V = "v\<lparr>pendingCategory := pendingCategory v - 1\<rparr>"
    have "posts_requests (fetchCategory_resume r) = []"
      "pendingBlogs (foldl perform ?V (fetchCategory_resume r)) = pendingBlogs ?V"
      by (cases r; simp add: fetchCategory_resume_def posts_requests_def)+
    from pending_commit [OF this] count_step [of v ev] False CategorySettled
    show ?thesis by (simp split: if_splits)
  qed
next
  case (ClickPage p)
  have "posts_requests (handlePageChange p) = []"
    "pendingBlogs (foldl perform v (handlePageChange p)) = pendingBlogs v"
    by (simp_all add: handlePageChange_def posts_requests_def)
  from pending_commit [OF this] count_step [of v ev] ClickPage
  show ?thesis by (simp add: posts_requests_def split: if_splits)
next
  case (RouterQuery c)
  have "posts_requests [] = []"
    "pendingBlogs (foldl perform (v\<lparr>categoryId := c\<rparr>) []) = pendingBlogs (v\<lparr>categoryId := c\<rparr>)"
    by (simp_all add: posts_requests_def)
  from pending_commit [OF this] count_step [of v ev] RouterQuery
  show ?thesis by simp
next
  case (Props g)
  have "posts_requests [] = []"
    "pendingBlogs (foldl perform (v\<lparr>setIsLoading := g\<rparr>) []) = pendingBlogs (v\<lparr>setIsLoading := g\<rparr>)"
    by (simp_all add: posts_requests_def)
  from pending_commit [OF this] count_step [of v ev] Props
  show ?thesis by simp
qed

lemma run_loading:
  "loading_ordered t \<Longrightarrow>
   count_list t (SetIsLoading False) + pendingBlogs v \<le> length (posts_requests t) \<Longrightarrow>
   loading_ordered (fst (run (t, v) evs))
   \<and> count_list (fst (run (t, v) evs)) (SetIsLoading False)
       \<le> count_list t (SetIsLoading False) + length (filter posts_resolved evs)
   \<and> count_list (fst (run (t, v) evs)) (SetIsLoading False)
       \<le> length (posts_requests (fst (run (t, v) evs)))"
proof (induction evs arbitrary: t v)
  case Nil
  then show ?case by simp
next
  case (Cons ev evs)
  obtain es v' where s: "step v ev = (es, v')" by (cases "step v ev")
  have o: "loading_ordered (t @ es)"
    using Cons.prems(1) loading_ordered_step [of v ev] s by (simp add: loading_ordered_append)
  have c: "count_list es (SetIsLoading False) \<le> (if posts_resolved ev then 1 else 0)"
    using count_step [of v ev] s by (simp split: if_splits)
  have p: "count_list (t @ es) (SetIsLoading False) + pendingBlogs v'
      \<le> length (posts_requests (t @ es))"
    using pending_step [of v ev] s Cons.prems(2) by (simp add: posts_requests_append)
  from Cons.IH [OF o p] c show ?case by (simp add: s split: if_splits)
qed

text \<open>
  C2. In the trace of every run of a mounted instance, each posts request comes
  directly after the loading-start signal, and each loading-end signal comes directly
  after the stores of the items and of the total page count. There are at most as many
  loading-end signals as successfully completed posts requests in the run, and at most
  as many as posts requests issued. A posts request in flight that resolves stores
  its items and the recomputed total page count and then signals loading-end once; one
  that rejects signals no loading-end.
\<close>

theorem loading_signals_ordered:
  assumes "t = fst (run (mount cid f) evs)"
  shows "(\<forall>i<length t. \<forall>c p n. t ! i = GetBlogsByCategory c p n \<longrightarrow>
            0 < i \<and> t ! (i - 1) = SetIsLoading True)
    \<and> (\<forall>i<length t. t ! i = SetIsLoading False \<longrightarrow>
            2 \<le> i \<and> (\<exists>bs n. t ! (i - 2) = SetBlogs bs \<and> t ! (i - 1) = SetTotalPages n))
    \<and> count_list t (SetIsLoading False) \<le> length (filter posts_resolved evs)
    \<and> count_list t (SetIsLoading False) \<le> length (posts_requests t)
    \<and> (0 < pendingBlogs v \<longrightarrow>
         (\<exists>es. fst (step v (BlogsSettled (Resolved d))) =
             [SetBlogs (contents d),
              SetTotalPages (Math_ceil (Number_divide (totalCount d) 10)),
              SetIsLoading False] @ es
            \<and> SetIsLoading False \<notin> set es))
    \<and> SetIsLoading False \<notin> set (fst (step v (BlogsSettled Rejected)))"
proof -
  let ?m = "mount cid f"
  have o: "loading_ordered (fst ?m)"
    by (simp add: mount_def loading_ordered_useEffect)
  have c0: "count_list (fst ?m) (SetIsLoading False) = 0"
    by (simp add: mount_def count_useEffect)
  have "pendingBlogs (snd ?m) \<le> length (posts_requests (fst ?m))"
    by (simp add: mount_def useEffect_pending CategoryList_initial_def)
  with c0 have p: "count_list (fst ?m) (SetIsLoading False) + pendingBlogs (snd ?m)
      \<le> length (posts_requests (fst ?m))"
    by simp
  have t: "t = fst (run (fst ?m, snd ?m) evs)"
    using assms by simp
  from run_loading [OF o p, of evs] c0
  have r: "loading_ordered t"
    "count_list t (SetIsLoading False) \<le> length (filter posts_resolved evs)"
    "count_list t (SetIsLoading False) \<le> length (posts_requests t)"
    unfolding t by simp_all
  have u: "SetIsLoading False \<notin> set (fst (useEffect w))" for w
    using useEffect_emits [of w] by auto
  have s: "0 < pendingBlogs v \<longrightarrow>
         (\<exists>es. fst (step v (BlogsSettled (Resolved d))) =
             [SetBlogs (contents d),
              SetTotalPages (Math_ceil (Number_divide (totalCount d) 10)),
              SetIsLoading False] @ es
            \<and> SetIsLoading False \<notin> set es)"
    by (simp add: fst_commit fetchBlogs_resume_def blogsPerPage_def u)
  have j: "SetIsLoading False \<notin> set (fst (step v (BlogsSettled Rejected)))"
    by (simp add: fst_commit fetchBlogs_resume_def u)
  from r(1) have a: "\<forall>i<length t. \<forall>c p n. t ! i = GetBlogsByCategory c p n \<longrightarrow>
            0 < i \<and> t ! (i - 1) = SetIsLoading True"
    and b: "\<forall>i<length t. t ! i = SetIsLoading False \<longrightarrow>
            2 \<le> i \<and> (\<exists>bs n. t ! (i - 2) = SetBlogs bs \<and> t ! (i - 1) = SetTotalPages n)"
    unfolding loading_ordered_def by blast+
  from a b r(2,3) s j show ?thesis by blast
qed

theorem loading_signals_ordered_witness:
  "count_list (fst (run (mount (Some (ascii ''c1'')) 0) [BlogsSettled Rejected, ClickPage 1]))
      (SetIsLoading False) = 0
   \<and> fst (run (mount (Some (ascii ''c1'')) 0) [BlogsSettled (Resolved d25)]) =
      [SetIsLoading True, GetBlogsByCategory (ascii ''c1'') 1 10, GetCategory (ascii ''c1''),
       SetBlogs [], SetTotalPages 3, SetIsLoading False]"
proof -
  have "count_list (fst (run (mount (Some (ascii ''c1'')) 0) [BlogsSettled Rejected, ClickPage 1]))
      (SetIsLoading False) \<le> length (filter posts_resolved [BlogsSettled Rejected, ClickPage 1])"
    using loading_signals_ordered [OF refl] by blast
  then have "count_list (fst (run (mount (Some (ascii ''c1'')) 0) [BlogsSettled Rejected, ClickPage 1]))
      (SetIsLoading False) = 0"
    by simp
  moreover have "fst (run (mount (Some (ascii ''c1'')) 0) [BlogsSettled (Resolved d25)]) =
      [SetIsLoading True, GetBlogsByCategory (ascii ''c1'') 1 10, GetCategory (ascii ''c1''),
       SetBlogs [], SetTotalPages 3, SetIsLoading False]"
    by (simp add: machine_defs d25_def Math_ceil_ten)
  ultimately show ?thesis by blast
qed

subsection \<open>Page changes\<close>


lemma reachable_run: "reachable v \<Longrightarrow> reachable (snd (run (t, v) evs))"
proof (induction evs arbitrary: t v)
  case Nil
  then show ?case by simp
next
  case (Cons ev evs)
  obtain es v' where s: "step v ev = (es, v')" by (cases "step v ev")
  from Cons.prems have "reachable (snd (step v ev))" by (rule reachable.reachable_step)
  with s have "reachable v'" by simp
  then have "reachable (snd (run (t @ es, v') evs))" by (rule Cons.IH)
  with s show ?case by simp
qed

lemma reachable_run_mount: "reachable (snd (run (mount cid f) evs))"
  using reachable_run [OF reachable_mount, of "fst (mount cid f)" cid f evs] by simp





subsection \<open>Range of the current page\<close>

lemma step_pages:
  "currentPage (snd (step v ev)) =
     (case ev of
        ClickPage p \<Rightarrow>
          if mounted v \<and> 1 < totalPages v \<and> totalPages v < 2 ^ 32 \<and> 1 \<le> p \<and> p \<le> totalPages v
          then p else currentPage v
      | _ \<Rightarrow> currentPage v)
   \<and> totalPages (snd (step v ev)) =
     (case ev of
        BlogsSettled (Resolved d) \<Rightarrow>
          if pendingBlogs v = 0 \<or> \<not> mounted v then totalPages v
          else Math_ceil (Number_divide (totalCount d) blogsPerPage)
      | _ \<Rightarrow> totalPages v)"
proof (cases ev)
  case (BlogsSettled r)
  then show ?thesis
    by (cases r) (simp_all add: commit_fields fetchBlogs_resume_def)
next
  case (CategorySettled r)
  then show ?thesis
    by (cases r) (simp_all add: commit_fields fetchCategory_resume_def)
next
  case (ClickPage p)
  then show ?thesis
    by (simp add: step_ClickPage commit_fields handlePageChange_def del: step.simps(3))
qed (simp_all add: commit_fields)

lemma step_page_positive: "1 \<le> currentPage v \<Longrightarrow> 1 \<le> currentPage (snd (step v ev))"
  using step_pages [of v ev] by (cases ev) (simp_all del: step.simps)

lemma step_page_in_range:
  assumes "0 < totalPages v \<longrightarrow> currentPage v \<le> totalPages v" and "keeps_page v ev"
  shows "0 < totalPages (snd (step v ev)) \<longrightarrow>
     currentPage (snd (step v ev)) \<le> totalPages (snd (step v ev))"
proof (cases ev)
  case (BlogsSettled r)
  with assms step_pages [of v ev] show ?thesis
    by (cases r) (auto simp del: step.simps)
qed (use assms step_pages [of v ev] in \<open>simp_all del: step.simps\<close>)

lemma run_page_in_range:
  "1 \<le> currentPage v \<Longrightarrow>
   1 \<le> currentPage (snd (run (t, v) evs))
   \<and> ((0 < totalPages v \<longrightarrow> currentPage v \<le> totalPages v) \<longrightarrow> pages_kept v evs \<longrightarrow>
        0 < totalPages (snd (run (t, v) evs)) \<longrightarrow>
        currentPage (snd (run (t, v) evs)) \<le> totalPages (snd (run (t, v) evs)))"
proof (induction evs arbitrary: t v)
  case Nil
  then show ?case by simp
next
  case (Cons ev evs)
  obtain es v' where s: "step v ev = (es, v')" by (cases "step v ev")
  have p: "1 \<le> currentPage v'"
    using step_page_positive [OF Cons.prems, of ev] by (simp add: s)
  have q: "0 < totalPages v' \<longrightarrow> currentPage v' \<le> totalPages v'"
    if "0 < totalPages v \<longrightarrow> currentPage v \<le> totalPages v" and "keeps_page v ev"
    using step_page_in_range [OF that] by (simp add: s)
  from Cons.IH [OF p, of "t @ es"] q show ?case by (auto simp: s)
qed

text \<open>
  C5, as amended. After every run of a mounted instance the current page is at
  least 1. It is at most the total page count, when that is positive, after every run
  in which no posts completion stores a positive total page count below the page then
  current: the view neither resets nor clamps the current page.
\<close>

theorem currentPage_in_range:
  assumes "v = snd (run (mount cid f) evs)"
  shows "1 \<le> currentPage v
     \<and> (pages_kept (snd (mount cid f)) evs \<longrightarrow> 0 < totalPages v \<longrightarrow>
          currentPage v \<le> totalPages v)"
proof -
  have m: "currentPage (snd (mount cid f)) = 1" "totalPages (snd (mount cid f)) = 0"
    by (simp_all add: mount_def useEffect_fields CategoryList_initial_def)
  have v: "v = snd (run (fst (mount cid f), snd (mount cid f)) evs)"
    using assms by simp
  from run_page_in_range [of "snd (mount cid f)" "fst (mount cid f)" evs] m
  show ?thesis unfolding v by simp
qed

theorem currentPage_in_range_witness:
  "pages_kept (snd (mount (Some (ascii ''c1'')) 0))
     [BlogsSettled (Resolved d25), ClickPage 3, BlogsSettled (Resolved d25)]
   \<and> totalPages (snd (run (mount (Some (ascii ''c1'')) 0)
        [BlogsSettled (Resolved d25), ClickPage 3, BlogsSettled (Resolved d25)])) = 3
   \<and> 1 \<le> currentPage (snd (run (mount (Some (ascii ''c1'')) 0)
        [BlogsSettled (Resolved d25), ClickPage 3, BlogsSettled (Resolved d25)]))
   \<and> currentPage (snd (run (mount (Some (ascii ''c1'')) 0)
        [BlogsSettled (Resolved d25), ClickPage 3, BlogsSettled (Resolved d25)])) \<le> 3"
proof -
  have k: "pages_kept (snd (mount (Some (ascii ''c1'')) 0))
     [BlogsSettled (Resolved d25), ClickPage 3, BlogsSettled (Resolved d25)]"
    by (simp add: run_defs d25_def Math_ceil_ten del: step.simps(3))
  have t: "totalPages (snd (run (mount (Some (ascii ''c1'')) 0)
        [BlogsSettled (Resolved d25), ClickPage 3, BlogsSettled (Resolved d25)])) = 3"
    by (simp add: run_defs d25_def Math_ceil_ten del: step.simps(3))
  from currentPage_in_range [OF refl, of "Some (ascii ''c1'')" 0
      "[BlogsSettled (Resolved d25), ClickPage 3, BlogsSettled (Resolved d25)]"] k t
  show ?thesis by simp
qed

text \<open>
  C5 as stated fails when a completion lowers the total page count: after page 3 of
  a category of three pages is selected and a category of one page is delivered to the
  same instance, the total page count is 1 and the current page is still 3.
\<close>

theorem currentPage_stale_counterexample:
  "reachable stale_page \<and> totalPages stale_page = 1 \<and> currentPage stale_page = 3"
proof -
  have r: "reachable stale_page"
    unfolding stale_page_def by (rule reachable_run_mount)
  have "totalPages stale_page = 1 \<and> currentPage stale_page = 3"
    by (simp add: stale_page_def run_defs d25_def d7_def Math_ceil_ten del: step.simps(3))
  with r show ?thesis by blast
qed

end
